theory Spec2Isabelle
  imports
    Complex_Main
    "HOL-Library.AList"
    "HOL-Library.Char_ord"
    "HOL-Library.List_Lexorder"
    "HOL-Library.Product_Lexorder"
    "HOL-Library.Multiset"
begin

section \<open>Data model of \<^verbatim>\<open>rank.py\<close>\<close>

text \<open>
  A Python \<^verbatim>\<open>dict\<close> is modelled as an association list in insertion order;
  \<^verbatim>\<open>d[k] = v\<close> is \<^const>\<open>AList.update\<close> (an existing key keeps its place, a new
  key goes to the end), \<^verbatim>\<open>d.get(k, dflt)\<close> is \<open>dict_get\<close> and the subscript
  \<^verbatim>\<open>d[k]\<close> is \<open>dict_item\<close>, which fails with \<open>KeyError\<close> on a missing key.
  Python's \<^verbatim>\<open>float\<close> is idealised as \<^typ>\<open>real\<close>: arithmetic is exact, without
  rounding, overflow or NaN.  Win counts are natural numbers, as the counting loop of
  \<^verbatim>\<open>build_win_matrix\<close> produces them.  Strings are compared as Python compares
  them, character by character.  Every \<^verbatim>\<open>raise\<close> of the source is a value of
  \<open>error\<close>.
\<close>

type_synonym name = string
type_synonym 'v dict = "(name \<times> 'v) list"
type_synonym outcome = "name \<times> name \<times> name"
type_synonym win_matrix = "(nat dict) dict"
type_synonym records = "(nat \<times> nat) dict"
type_synonym strengths = "real dict"

datatype error =
    KeyError name
  | ValueError_unrecognized_winner
  | ValueError_winner_not_in_pair
  | ValueError_no_comparison_data
  | ValueError_max_of_empty
  | ZeroDivisionError
  | RuntimeError_failed_to_normalize

definition dict_get :: "'v dict \<Rightarrow> name \<Rightarrow> 'v \<Rightarrow> 'v" where
  "dict_get d k dflt = (case map_of d k of None \<Rightarrow> dflt | Some v \<Rightarrow> v)"

definition dict_item :: "'v dict \<Rightarrow> name \<Rightarrow> error + 'v" where
  "dict_item d k = (case map_of d k of None \<Rightarrow> Inl (KeyError k) | Some v \<Rightarrow> Inr v)"

text \<open>
  Reading \<^verbatim>\<open>d[k]\<close> on a \<^verbatim>\<open>defaultdict\<close> inserts the default under a missing key
  and leaves a present key alone.
\<close>

definition dd_touch :: "'v dict \<Rightarrow> name \<Rightarrow> 'v \<Rightarrow> 'v dict" where
  "dd_touch d k dflt = (if k \<in> fst ` set d then d else d @ [(k, dflt)])"

section \<open>\<^verbatim>\<open>build_win_matrix\<close>\<close>

text \<open>\<^verbatim>\<open>wins[x][y] += 1\<close> on the nested \<^verbatim>\<open>defaultdict\<close>.\<close>

definition wins_incr :: "win_matrix \<Rightarrow> name \<Rightarrow> name \<Rightarrow> win_matrix" where
  "wins_incr wins x y =
     (let inner = dict_get wins x []
      in AList.update x (AList.update y (dict_get inner y 0 + 1) inner) wins)"

text \<open>
  \<^verbatim>\<open>w, t = records[x]; records[x] = (w + dw, t + 1)\<close> with the default \<open>(0, 0)\<close>.
\<close>

definition records_bump :: "records \<Rightarrow> name \<Rightarrow> nat \<Rightarrow> records" where
  "records_bump recs x dw =
     (case dict_get recs x (0, 0) of (w, t) \<Rightarrow> AList.update x (w + dw, t + 1) recs)"

definition build_step :: "outcome \<Rightarrow> win_matrix \<times> records \<Rightarrow> win_matrix \<times> records" where
  "build_step r st =
     (case r of (a, b, winner) \<Rightarrow>
      case st of (wins, recs) \<Rightarrow>
        let (wins1, recs1) =
              (if winner = a
               then (wins_incr wins a b, records_bump (records_bump recs a 1) b 0)
               else (wins_incr wins b a, records_bump (records_bump recs b 1) a 0))
        in (dd_touch (dd_touch wins1 a []) b [],
            dd_touch (dd_touch recs1 a (0, 0)) b (0, 0)))"

definition build_win_matrix :: "outcome list \<Rightarrow> win_matrix \<times> records" where
  "build_win_matrix results = fold build_step results ([], [])"

section \<open>\<^verbatim>\<open>load_results\<close>\<close>

text \<open>
  A row of \<^verbatim>\<open>csv.DictReader\<close> is a map from column names to cell texts (a row
  that is shorter than the header, whose missing cells are \<^verbatim>\<open>None\<close>, is outside
  the model); reading the file itself is outside the model too, \<open>load_results\<close>
  starts from the rows.  \<^verbatim>\<open>str.strip()\<close> removes leading and trailing whitespace;
  on the characters of \<^typ>\<open>string\<close> these are the ASCII ones Python counts as
  space.
\<close>

type_synonym row = "string \<rightharpoonup> string"














section \<open>\<^verbatim>\<open>rank_scores\<close>\<close>

text \<open>
  \<^verbatim>\<open>sorted(scores.items(), key=lambda kv: (-kv[1], kv[0]))\<close>: Python's sort is
  stable, as \<^const>\<open>sort_key\<close> is, and compares the key tuples lexicographically,
  which is the order of pairs here.
\<close>

definition rank_scores :: "strengths \<Rightarrow> (name \<times> real) list" where
  "rank_scores scores = sort_key (\<lambda>kv. (- snd kv, fst kv)) scores"

text \<open>
  The ranker's comparison in the words of the specification: a higher score comes
  first, and of two equal scores the name that is not greater.
\<close>

definition ranks_before :: "name \<times> real \<Rightarrow> name \<times> real \<Rightarrow> bool" where
  "ranks_before x y = (snd y < snd x \<or> (snd x = snd y \<and> fst x \<le> fst y))"

section \<open>\<^verbatim>\<open>powerlaw_allocations\<close>\<close>

text \<open>
  \<^verbatim>\<open>round\<close> on a float rounds to the nearest integer, a half to the even one.
\<close>

definition py_round :: "real \<Rightarrow> int" where
  "py_round x =
     (let f = \<lfloor>x\<rfloor>; d = x - of_int f
      in if d < 1/2 then f else if 1/2 < d then f + 1 else if even f then f else f + 1)"

text \<open>
  The slices \<^verbatim>\<open>xs[:n]\<close> and \<^verbatim>\<open>xs[n:]\<close>; a negative \<open>n\<close> counts from the end.
\<close>

definition slice_to :: "'a list \<Rightarrow> int \<Rightarrow> 'a list" where
  "slice_to xs n = (if 0 \<le> n then take (nat n) xs else take (nat (int (length xs) + n)) xs)"

definition slice_from :: "'a list \<Rightarrow> int \<Rightarrow> 'a list" where
  "slice_from xs n = (if 0 \<le> n then drop (nat n) xs else drop (nat (int (length xs) + n)) xs)"

text \<open>
  The body of the loop over \<^verbatim>\<open>enumerate(consider, start=1)\<close>; \<open>idx - 1\<close> is
  always an index of \<open>weights\<close>, which is as long as \<open>consider\<close>.
\<close>

definition alloc_step ::
  "real \<Rightarrow> real list \<Rightarrow> int \<Rightarrow> int \<Rightarrow> nat \<times> name \<times> real \<Rightarrow> int dict \<Rightarrow> int dict" where
  "alloc_step scale weights max_fil min_fil e allocations =
     (case e of (idx, (name, score)) \<Rightarrow>
        let raw = scale * weights ! (idx - 1);
            alloc = py_round raw
        in if alloc < min_fil then AList.update name 0 allocations
           else AList.update name (min max_fil alloc) allocations)"

text \<open>
  \<^verbatim>\<open>idx**alpha\<close> for a rank \<open>idx \<ge> 1\<close> is the real power; \<^verbatim>\<open>sum(weights) or 1.0\<close>
  replaces a zero sum by one.  The arguments keep the order of the Python signature.
\<close>

definition powerlaw_allocations ::
  "(name \<times> real) list \<Rightarrow> real \<Rightarrow> int \<Rightarrow> int \<Rightarrow> int \<Rightarrow> int \<Rightarrow> int dict" where
  "powerlaw_allocations ranked alpha top_n max_fil min_fil budget_fil =
     (let consider = slice_to ranked top_n;
          weights = map (\<lambda>idx. 1 / (real idx powr alpha)) [1..<length consider + 1];
          weight_sum = (if sum_list weights = 0 then 1 else sum_list weights);
          scale = real_of_int budget_fil / weight_sum;
          allocations = fold (alloc_step scale weights max_fil min_fil)
                          (zip [1..<length consider + 1] consider) []
      in fold (\<lambda>(name, score). AList.update name 0) (slice_from ranked top_n) allocations)"

section \<open>\<^verbatim>\<open>bradley_terry\<close>\<close>

definition MAX_ITERS :: int where
  "MAX_ITERS = 10000"

definition TOL :: real where
  "TOL = 1 / 10 ^ 10"

text \<open>The mass \<^verbatim>\<open>1e-12\<close> given to an entity without wins.\<close>

definition EPS :: real where
  "EPS = 1 / 10 ^ 12"

text \<open>
  The inner loop \<^verbatim>\<open>for j in players\<close> that accumulates \<open>denom\<close> for entity
  \<open>i\<close>.  Subscripts raise \<^verbatim>\<open>KeyError\<close> on a missing key and the division raises
  \<^verbatim>\<open>ZeroDivisionError\<close> on a zero divisor.
\<close>

fun denom_loop ::
  "win_matrix \<Rightarrow> strengths \<Rightarrow> name \<Rightarrow> name list \<Rightarrow> real \<Rightarrow> error + real" where
  "denom_loop wins scores i [] denom = Inr denom"
| "denom_loop wins scores i (j # js) denom =
     (if i = j then denom_loop wins scores i js denom
      else
       (case dict_item wins i of
          Inl e \<Rightarrow> Inl e
        | Inr wins_i \<Rightarrow>
       (case dict_item wins j of
          Inl e \<Rightarrow> Inl e
        | Inr wins_j \<Rightarrow>
          let n_ij = dict_get wins_i j 0 + dict_get wins_j i 0
          in if n_ij = 0 then denom_loop wins scores i js denom
             else
              (case dict_item scores i of
                 Inl e \<Rightarrow> Inl e
               | Inr s_i \<Rightarrow>
              (case dict_item scores j of
                 Inl e \<Rightarrow> Inl e
               | Inr s_j \<Rightarrow>
                 if s_i + s_j = 0 then Inl ZeroDivisionError
                 else denom_loop wins scores i js (denom + real n_ij / (s_i + s_j)))))))"

text \<open>
  The loop \<^verbatim>\<open>for i in players\<close> that fills \<open>new_scores\<close>; the third argument is
  the whole player list (for the inner loop), the fourth what is left of it.
\<close>

fun update_loop ::
  "win_matrix \<Rightarrow> strengths \<Rightarrow> name list \<Rightarrow> name list \<Rightarrow> strengths \<Rightarrow> error + strengths"
  where
  "update_loop wins scores players [] new_scores = Inr new_scores"
| "update_loop wins scores players (i # rest) new_scores =
     (case dict_item wins i of
        Inl e \<Rightarrow> Inl e
      | Inr row \<Rightarrow>
        let wins_i = sum_list (map snd row)
        in if wins_i = 0
           then update_loop wins scores players rest (AList.update i EPS new_scores)
           else
            (case denom_loop wins scores i players 0 of
               Inl e \<Rightarrow> Inl e
             | Inr denom \<Rightarrow>
                 update_loop wins scores players rest
                   (AList.update i (if 0 < denom then real wins_i / denom else EPS)
                      new_scores)))"

definition mm_update :: "win_matrix \<Rightarrow> name list \<Rightarrow> strengths \<Rightarrow> error + strengths" where
  "mm_update wins players scores = update_loop wins scores players players []"

text \<open>\<^verbatim>\<open>for k in new_scores: new_scores[k] /= total'\<close>\<close>

definition normalize :: "strengths \<Rightarrow> real \<Rightarrow> strengths" where
  "normalize new_scores total' = map (\<lambda>(k, v). (k, v / total')) new_scores"

text \<open>\<^verbatim>\<open>abs(new_scores[k] - scores[k]) for k in players\<close> and its \<^verbatim>\<open>max\<close>.\<close>

fun abs_diffs :: "strengths \<Rightarrow> strengths \<Rightarrow> name list \<Rightarrow> error + real list" where
  "abs_diffs new_scores scores [] = Inr []"
| "abs_diffs new_scores scores (k # ks) =
     (case dict_item new_scores k of
        Inl e \<Rightarrow> Inl e
      | Inr x \<Rightarrow>
     (case dict_item scores k of
        Inl e \<Rightarrow> Inl e
      | Inr y \<Rightarrow>
     (case abs_diffs new_scores scores ks of
        Inl e \<Rightarrow> Inl e
      | Inr ds \<Rightarrow> Inr (\<bar>x - y\<bar> # ds))))"

definition py_max :: "real list \<Rightarrow> error + real" where
  "py_max ds = (case ds of [] \<Rightarrow> Inl ValueError_max_of_empty | d # rest \<Rightarrow> Inr (fold max rest d))"

text \<open>
  One pass through the body of \<^verbatim>\<open>for _ in range(max_iters)\<close> up to the
  assignment of \<open>delta\<close>: the normalized new scores and \<open>delta\<close>.
\<close>

definition bt_round ::
  "win_matrix \<Rightarrow> name list \<Rightarrow> strengths \<Rightarrow> error + (strengths \<times> real)" where
  "bt_round wins players scores =
     (case mm_update wins players scores of
        Inl e \<Rightarrow> Inl e
      | Inr new_scores \<Rightarrow>
        let total' = sum_list (map snd new_scores)
        in if total' \<le> 0 then Inl RuntimeError_failed_to_normalize
           else
            let new_scores = normalize new_scores total'
            in (case abs_diffs new_scores scores players of
                  Inl e \<Rightarrow> Inl e
                | Inr ds \<Rightarrow>
                (case py_max ds of
                   Inl e \<Rightarrow> Inl e
                 | Inr delta \<Rightarrow> Inr (new_scores, delta))))"

text \<open>The loop itself, with the number of rounds that are left.\<close>

fun bt_loop :: "win_matrix \<Rightarrow> real \<Rightarrow> name list \<Rightarrow> nat \<Rightarrow> strengths \<Rightarrow> error + strengths"
  where
  "bt_loop wins tol players 0 scores = Inr scores"
| "bt_loop wins tol players (Suc n) scores =
     (case bt_round wins players scores of
        Inl e \<Rightarrow> Inl e
      | Inr (new_scores, delta) \<Rightarrow>
          if delta < tol then Inr new_scores
          else bt_loop wins tol players n new_scores)"

definition players_of :: "win_matrix \<Rightarrow> name list" where
  "players_of wins = sort (map fst wins)"

definition initial_scores :: "name list \<Rightarrow> strengths" where
  "initial_scores players = fold (\<lambda>player. AList.update player 1) players []"

definition bradley_terry :: "win_matrix \<Rightarrow> int \<Rightarrow> real \<Rightarrow> error + strengths" where
  "bradley_terry wins max_iters tol =
     (let players = players_of wins;
          scores = initial_scores players
      in bt_loop wins tol players (nat max_iters) scores)"

text \<open>
  What the loop maintains: every player is a key of the win matrix, and the current
  scores give every player a positive value.
\<close>

definition registered :: "win_matrix \<Rightarrow> name list \<Rightarrow> bool" where
  "registered wins players = (\<forall>p \<in> set players. \<exists>row. map_of wins p = Some row)"

definition positive_on :: "name list \<Rightarrow> strengths \<Rightarrow> bool" where
  "positive_on players scores = (\<forall>p \<in> set players. \<exists>v. map_of scores p = Some v \<and> 0 < v)"

definition all_positive :: "strengths \<Rightarrow> bool" where
  "all_positive scores = (\<forall>kv \<in> set scores. 0 < snd kv)"

text \<open>
  The scores with which round \<open>k + 1\<close> starts: the loop has run \<open>k\<close> rounds, none
  of them failed and none met the convergence test.
\<close>

fun scores_after ::
  "win_matrix \<Rightarrow> real \<Rightarrow> name list \<Rightarrow> strengths \<Rightarrow> nat \<Rightarrow> strengths option" where
  "scores_after wins tol players scores 0 = Some scores"
| "scores_after wins tol players scores (Suc k) =
     (case scores_after wins tol players scores k of
        None \<Rightarrow> None
      | Some s \<Rightarrow>
         (case bt_round wins players s of
            Inl e \<Rightarrow> None
          | Inr (s', delta) \<Rightarrow> if delta < tol then None else Some s'))"

text \<open>The error taxonomy of the specification for the fitter.\<close>

definition DegenerateModel :: "error \<Rightarrow> bool" where
  "DegenerateModel e = (e = RuntimeError_failed_to_normalize)"

text \<open>
  The loop of \<^verbatim>\<open>bradley_terry\<close> entered with a given vector \<open>seed\<close> as the value of
  \<^verbatim>\<open>scores\<close>.  The Python function has no parameter for it and always starts from
  the all-ones vector: \<open>bradley_terry\<close> is \<open>refit\<close> at \<open>initial_scores\<close>.
\<close>

definition refit :: "win_matrix \<Rightarrow> strengths \<Rightarrow> int \<Rightarrow> real \<Rightarrow> error + strengths" where
  "refit wins seed max_iters tol = bt_loop wins tol (players_of wins) (nat max_iters) seed"


section \<open>Properties\<close>

text \<open>
  Claim C7.  On the outcome list \<open>[(A,B,A), (A,B,B), (A,C,A)]\<close> the builder returns
  exactly the win matrix with A beating B once, B beating A once and A beating C once
  (no other count), the records A = (2,3), B = (1,2), C = (0,1), and all of A, B, C are
  keys of the win matrix (C with an empty row).
\<close>

theorem build_win_matrix_example:
  "build_win_matrix [(''A'', ''B'', ''A''), (''A'', ''B'', ''B''), (''A'', ''C'', ''A'')]
     = ([(''A'', [(''B'', 1), (''C'', 1)]), (''B'', [(''A'', 1)]), (''C'', [])],
        [(''A'', (2, 3)), (''B'', (1, 2)), (''C'', (0, 1))])"
  by (simp add: build_win_matrix_def build_step_def wins_incr_def records_bump_def
      dd_touch_def dict_get_def)

subsection \<open>Ingestion\<close>








subsection \<open>Ranking\<close>

lemma rank_key_le: "((- snd x, fst x) \<le> (- snd y, fst y)) = ranks_before (x :: name \<times> real) y"
  by (auto simp: less_eq_prod_def ranks_before_def)

lemma rank_key_inj: "((- snd x, fst x) = (- snd y, fst y)) = ((x :: name \<times> real) = y)"
  by (auto simp: prod_eq_iff)

lemma filter_eq_count: "filter (\<lambda>x. k = x) xs = replicate (count (mset xs) k) k"
  by (induction xs) auto

lemma rank_scores_sorted: "sorted_wrt ranks_before (rank_scores scores)"
  using sorted_sort_key [of "\<lambda>kv. (- snd kv, fst kv)" scores]
  by (simp only: rank_scores_def sorted_map rank_key_le)

lemma rank_scores_unique:
  assumes "mset ys = mset scores" and "sorted_wrt ranks_before ys"
  shows "ys = rank_scores scores"
proof -
  have "sort_key (\<lambda>kv. (- snd kv, fst kv)) scores = ys"
  proof (rule properties_for_sort_key)
    show "mset ys = mset scores" by fact
    show "sorted (map (\<lambda>kv. (- snd kv, fst kv)) ys)"
      using assms(2) by (simp only: sorted_map rank_key_le)
    fix k
    show "filter (\<lambda>x. (- snd k, fst k) = (- snd x, fst x)) ys
        = filter (\<lambda>x. (- snd k, fst k) = (- snd x, fst x)) scores"
      unfolding rank_key_inj filter_eq_count assms(1) ..
  qed
  then show ?thesis by (simp add: rank_scores_def)
qed

text \<open>
  Claim C4.  The ranked list holds exactly the entries of the strength vector, its
  scores never increase along the list, entries with equal scores stand in ascending
  order of their names (strictly ascending when the names are distinct, as the keys of
  a mapping are), the comparison is a total order, and the ranked list is the only
  arrangement of the entries that respects it: the result does not depend on the order
  in which the mapping lists its entries.  The ranker is a function of its argument,
  which it leaves as it is.
\<close>

theorem rank_scores_total_order:
  "mset (rank_scores scores) = mset scores
 \<and> sorted_wrt (\<lambda>x y. snd y \<le> snd x) (rank_scores scores)
 \<and> sorted_wrt (\<lambda>x y. snd x = snd y \<longrightarrow> fst x \<le> fst y) (rank_scores scores)
 \<and> (distinct (map fst scores)
      \<longrightarrow> sorted_wrt (\<lambda>x y. snd x = snd y \<longrightarrow> fst x < fst y) (rank_scores scores))
 \<and> (\<forall>x y. ranks_before x y \<or> ranks_before y x)
 \<and> (\<forall>x y. ranks_before x y \<and> ranks_before y x \<longrightarrow> x = y)
 \<and> (\<forall>x y z. ranks_before x y \<and> ranks_before y z \<longrightarrow> ranks_before x z)
 \<and> (\<forall>ys. mset ys = mset scores \<and> sorted_wrt ranks_before ys \<longrightarrow> ys = rank_scores scores)"
proof -
  let ?r = "rank_scores scores"
  have m: "mset ?r = mset scores" by (simp add: rank_scores_def)
  have s: "sorted_wrt ranks_before ?r" by (rule rank_scores_sorted)
  have s1: "sorted_wrt (\<lambda>x y. snd y \<le> snd x) ?r"
    by (rule sorted_wrt_mono_rel [OF _ s]) (auto simp: ranks_before_def)
  have s2: "sorted_wrt (\<lambda>x y. snd x = snd y \<longrightarrow> fst x \<le> fst y) ?r"
    by (rule sorted_wrt_mono_rel [OF _ s]) (auto simp: ranks_before_def)
  have s3: "sorted_wrt (\<lambda>x y. snd x = snd y \<longrightarrow> fst x < fst y) ?r"
    if d: "distinct (map fst scores)"
  proof -
    have "mset (map fst ?r) = mset (map fst scores)" using m by simp
    then have "distinct (map fst ?r)" using d by (metis mset_eq_imp_distinct_iff)
    then have "sorted_wrt (\<lambda>x y. fst x \<noteq> fst y) ?r"
      by (simp add: distinct_map sorted_wrt_map distinct_conv_nth sorted_wrt_iff_nth_less) 
    with s2 have "sorted_wrt (\<lambda>x y. (snd x = snd y \<longrightarrow> fst x \<le> fst y) \<and> fst x \<noteq> fst y) ?r"
      by (simp add: sorted_wrt_iff_nth_less)
    then show ?thesis
      by (rule sorted_wrt_mono_rel [rotated]) auto
  qed
  have t1: "\<forall>x y. ranks_before x y \<or> ranks_before y x"
    by (auto simp: ranks_before_def)
  have t2: "\<forall>x y. ranks_before x y \<and> ranks_before y x \<longrightarrow> x = y"
    by (auto simp: ranks_before_def prod_eq_iff)
  have t3: "\<forall>x y z. ranks_before x y \<and> ranks_before y z \<longrightarrow> ranks_before x z"
    by (auto simp: ranks_before_def)
  from m s1 s2 s3 t1 t2 t3 rank_scores_unique show ?thesis by blast
qed

theorem rank_scores_total_order_witness:
  "rank_scores [(''b'', 1/4), (''a'', 1/4), (''c'', 1/2)]
     = [(''c'', 1/2), (''a'', 1/4), (''b'', 1/4)]
   \<and> sorted_wrt (\<lambda>x y. snd x = snd y \<longrightarrow> fst x < fst y)
        (rank_scores [(''b'', 1/4), (''a'', 1/4), (''c'', 1/2)])"
proof -
  let ?s = "[(''b'', 1/4), (''a'', 1/4), (''c'', 1/2 :: real)]"
  let ?r = "[(''c'', 1/2), (''a'', 1/4), (''b'', 1/4 :: real)]"
  have d: "distinct (map fst ?s)" by simp
  have m: "mset ?r = mset ?s" by simp
  have o: "sorted_wrt ranks_before ?r" by (simp add: ranks_before_def)
  note t = rank_scores_total_order [of ?s]
  from t have u: "\<forall>ys. mset ys = mset ?s \<and> sorted_wrt ranks_before ys \<longrightarrow> ys = rank_scores ?s"
    by (elim conjE)
  from t have st: "distinct (map fst ?s)
      \<longrightarrow> sorted_wrt (\<lambda>x y. snd x = snd y \<longrightarrow> fst x < fst y) (rank_scores ?s)"
    by (elim conjE)
  from u m o have "?r = rank_scores ?s" by (elim allE [of _ ?r] impE) (rule conjI)
  with st d show ?thesis by (simp del: distinct.simps)
qed

subsection \<open>Allocation\<close>

lemma slice_to_from: "slice_to xs n @ slice_from xs n = xs"
  by (simp add: slice_to_def slice_from_def)

lemma update_entry:
  "(k', v') \<in> set (AList.update k v al) \<Longrightarrow> (k', v') = (k, v) \<or> (k', v') \<in> set al"
  by (induction al) (auto split: if_splits)






lemma keys_fold_alloc_step:
  "fst ` set (fold (alloc_step scale weights max_fil min_fil) es acc)
     = fst ` set acc \<union> (fst \<circ> snd) ` set es"
proof (induction es arbitrary: acc)
  case Nil
  then show ?case by simp
next
  case (Cons e es)
  obtain idx name score where e: "e = (idx, name, score)" by (cases e)
  have "fst ` set (alloc_step scale weights max_fil min_fil e acc) = insert name (fst ` set acc)"
    by (simp add: e alloc_step_def Let_def dom_update)
  with Cons.IH [of "alloc_step scale weights max_fil min_fil e acc"] e
  show ?case by auto
qed

lemma keys_fold_zero:
  "fst ` set (fold (\<lambda>(name, score). AList.update name (0::int)) rest acc)
     = fst ` set acc \<union> fst ` set rest"
proof (induction rest arbitrary: acc)
  case Nil
  then show ?case by simp
next
  case (Cons e rest)
  obtain name score where e: "e = (name, score)" by (cases e)
  from Cons.IH [of "AList.update name 0 acc"] e
  show ?case by (auto simp: dom_update)
qed

lemma map_of_fold_zero:
  "map_of (fold (\<lambda>(name, score). AList.update name (0::int)) rest acc) k
     = (if k \<in> fst ` set rest then Some 0 else map_of acc k)"
proof (induction rest arbitrary: acc)
  case Nil
  then show ?case by simp
next
  case (Cons e rest)
  obtain name score where e: "e = (name, score)" by (cases e)
  from Cons.IH [of "AList.update name 0 acc"] e
  show ?case by (auto simp: update_conv')
qed

lemma keys_powerlaw_allocations:
  "fst ` set (powerlaw_allocations ranked alpha top_n max_fil min_fil budget_fil)
     = fst ` set ranked"
proof -
  let ?c = "slice_to ranked top_n"
  have "(fst \<circ> snd) ` set (zip [1..<length ?c + 1] ?c) = fst ` set (map snd (zip [1..<length ?c + 1] ?c))"
    by (simp add: image_comp)
  also have "map snd (zip [1..<length ?c + 1] ?c) = ?c"
    by (rule map_snd_zip) (simp del: upt_Suc)
  finally have "fst ` set (powerlaw_allocations ranked alpha top_n max_fil min_fil budget_fil)
      = fst ` set (slice_to ranked top_n @ slice_from ranked top_n)"
    by (simp add: powerlaw_allocations_def Let_def keys_fold_zero keys_fold_alloc_step image_Un)
  then show ?thesis by (simp only: slice_to_from)
qed

text \<open>
  Claim C6.  The allocation map has an entry for exactly the entities of the ranked
  list; every entity of the slice \<^verbatim>\<open>ranked[top_n:]\<close> has the allocation 0; so, for a
  window size \<open>top_n \<ge> 0\<close>, every entity at a 1-based rank greater than \<open>top_n\<close>
  (index \<open>i \<ge> top_n\<close>) is present with the allocation 0, whatever the budget, the
  exponent and the clamps are.
\<close>

theorem beyond_top_n_zero:
  "fst ` set (powerlaw_allocations ranked alpha top_n max_fil min_fil budget_fil)
     = fst ` set ranked
 \<and> (\<forall>e \<in> set (slice_from ranked top_n).
      map_of (powerlaw_allocations ranked alpha top_n max_fil min_fil budget_fil) (fst e)
        = Some 0)
 \<and> (0 \<le> top_n \<longrightarrow>
      (\<forall>i. nat top_n \<le> i \<and> i < length ranked \<longrightarrow>
         map_of (powerlaw_allocations ranked alpha top_n max_fil min_fil budget_fil)
           (fst (ranked ! i)) = Some 0))"
proof -
  have rest: "map_of (powerlaw_allocations ranked alpha top_n max_fil min_fil budget_fil)
          (fst e) = Some 0"
    if "e \<in> set (slice_from ranked top_n)" for e
    using that by (simp add: powerlaw_allocations_def Let_def map_of_fold_zero)
  have "map_of (powerlaw_allocations ranked alpha top_n max_fil min_fil budget_fil)
          (fst (ranked ! i)) = Some 0"
    if "0 \<le> top_n" "nat top_n \<le> i" "i < length ranked" for i
  proof -
    from that have "ranked ! i = drop (nat top_n) ranked ! (i - nat top_n)"
      and "i - nat top_n < length (drop (nat top_n) ranked)"
      by simp_all
    then have "ranked ! i \<in> set (slice_from ranked top_n)"
      using that(1) by (metis nth_mem slice_from_def)
    then show ?thesis by (rule rest)
  qed
  with keys_powerlaw_allocations rest show ?thesis by blast
qed



theorem beyond_top_n_zero_witness:
  "map_of (powerlaw_allocations [(''A'', 1/2), (''B'', 1/3), (''C'', 1/6)] 1 2 100000 1500 3000)
     ''C'' = Some 0"
proof -
  note t = beyond_top_n_zero
    [of "[(''A'', 1/2), (''B'', 1/3), (''C'', 1/6)]" 1 2 100000 1500 3000]
  have "(0::int) \<le> 2" by simp
  with t have "\<forall>i. nat 2 \<le> i \<and> i < length [(''A'', 1/2 :: real), (''B'', 1/3), (''C'', 1/6)] \<longrightarrow>
      map_of (powerlaw_allocations [(''A'', 1/2), (''B'', 1/3), (''C'', 1/6)] 1 2 100000 1500 3000)
        (fst ([(''A'', 1/2 :: real), (''B'', 1/3), (''C'', 1/6)] ! i)) = Some 0"
    by (elim conjE impE) assumption+
  from this [rule_format, of 2] show ?thesis by simp
qed

subsection \<open>The fitter: one round\<close>

lemma all_positive_update:
  "all_positive acc \<Longrightarrow> 0 < v \<Longrightarrow> all_positive (AList.update k v acc)"
  unfolding all_positive_def by (auto dest: update_entry)

lemma denom_loop_ok:
  assumes "registered wins (i # js)" and "positive_on (i # js) scores" and "0 \<le> denom"
  shows "\<exists>d. denom_loop wins scores i js denom = Inr d \<and> denom \<le> d"
  using assms
proof (induction js arbitrary: denom)
  case Nil
  then show ?case by simp
next
  case (Cons j js)
  from Cons.prems have reg: "registered wins (i # js)" and pos: "positive_on (i # js) scores"
    by (auto simp: registered_def positive_on_def)
  show ?case
  proof (cases "i = j")
    case True
    with Cons.IH [OF reg pos Cons.prems(3)] show ?thesis by simp
  next
    case False
    from Cons.prems obtain wi wj si sj where
      w: "map_of wins i = Some wi" "map_of wins j = Some wj" and
      s: "map_of scores i = Some si" "map_of scores j = Some sj" "0 < si" "0 < sj"
      by (auto simp: registered_def positive_on_def)
    define n where "n = dict_get wi j 0 + dict_get wj i 0"
    show ?thesis
    proof (cases "n = 0")
      case True
      with Cons.IH [OF reg pos Cons.prems(3)] False w show ?thesis
        by (simp add: dict_item_def n_def [symmetric] del: add_is_0)
    next
      case nz: False
      let ?d = "denom + real n / (si + sj)"
      from s Cons.prems(3) have d: "denom \<le> ?d" "0 \<le> ?d" by simp_all
      from Cons.IH [OF reg pos d(2)] obtain r where
        r: "denom_loop wins scores i js ?d = Inr r" "?d \<le> r" by blast
      from d(1) r(2) have "denom \<le> r" by (rule order_trans)
      with False nz w s r(1) show ?thesis
        by (simp add: dict_item_def n_def [symmetric] del: add_is_0 of_nat_add)
    qed
  qed
qed

lemma update_loop_ok:
  assumes "registered wins players" and "positive_on players scores"
    and "set rest \<subseteq> set players" and "all_positive acc"
  shows "\<exists>ns. update_loop wins scores players rest acc = Inr ns
           \<and> fst ` set ns = fst ` set acc \<union> set rest
           \<and> all_positive ns
           \<and> (distinct (map fst acc) \<longrightarrow> distinct (map fst ns))"
  using assms(3,4)
proof (induction rest arbitrary: acc)
  case Nil
  then show ?case by simp
next
  case (Cons i rest)
  from Cons.prems(1) have i: "i \<in> set players" and rest: "set rest \<subseteq> set players"
    by simp_all
  from i assms(1) obtain row where row: "map_of wins i = Some row"
    by (auto simp: registered_def)
  have step: "\<exists>ns. update_loop wins scores players rest (AList.update i v acc) = Inr ns
           \<and> fst ` set ns = fst ` set acc \<union> set (i # rest)
           \<and> all_positive ns
           \<and> (distinct (map fst acc) \<longrightarrow> distinct (map fst ns))"
    if "0 < v" for v
  proof -
    from Cons.prems(2) that have "all_positive (AList.update i v acc)"
      by (rule all_positive_update)
    from Cons.IH [OF rest this] show ?thesis
      by (auto simp: dom_update distinct_update)
  qed
  show ?case
  proof (cases "sum_list (map snd row) = 0")
    case True
    have "0 < EPS" by (simp add: EPS_def)
    from step [OF this] True row show ?thesis
      by (simp add: dict_item_def)
  next
    case False
    have "registered wins (i # players)" "positive_on (i # players) scores"
      using assms(1,2) i by (auto simp: registered_def positive_on_def)
    from denom_loop_ok [OF this, of 0] obtain d where
      d: "denom_loop wins scores i players 0 = Inr d" by auto
    define w where "w = sum_list (map snd row)"
    let ?v = "if 0 < d then real w / d else EPS"
    from False have w: "w \<noteq> 0" by (simp only: w_def not_False_eq_True)
    then have "0 < ?v" by (simp add: EPS_def)
    from step [OF this] w row d show ?thesis
      by (simp add: dict_item_def w_def [symmetric] del: sum_list_eq_0_iff)
  qed
qed

lemma mm_update_ok:
  assumes "registered wins players" and "positive_on players scores"
  shows "\<exists>ns. mm_update wins players scores = Inr ns
           \<and> fst ` set ns = set players \<and> all_positive ns \<and> distinct (map fst ns)"
  using update_loop_ok [OF assms, of players "[]"]
  by (auto simp: mm_update_def all_positive_def)

lemma sum_list_normalize:
  "sum_list (map snd (normalize ns t)) = sum_list (map snd ns) / t"
  by (induction ns) (auto simp: normalize_def add_divide_distrib)

lemma keys_normalize: "map fst (normalize ns t) = map fst ns"
  by (induction ns) (auto simp: normalize_def)

lemma all_positive_normalize:
  "all_positive ns \<Longrightarrow> 0 < t \<Longrightarrow> all_positive (normalize ns t)"
  by (auto simp: all_positive_def normalize_def)


lemma all_positive_sum_nonneg: "all_positive ns \<Longrightarrow> 0 \<le> sum_list (map snd ns)"
  by (induction ns) (auto simp: all_positive_def intro: add_nonneg_nonneg less_imp_le)

lemma all_positive_sum:
  assumes "all_positive ns" and "ns \<noteq> []"
  shows "0 < sum_list (map snd ns)"
proof -
  from assms(2) obtain kv rest where ns: "ns = kv # rest" by (cases ns) auto
  with assms(1) have "0 < snd kv" and "all_positive rest" by (auto simp: all_positive_def)
  then have "0 < snd kv + sum_list (map snd rest)"
    by (intro add_pos_nonneg all_positive_sum_nonneg)
  with ns show ?thesis by simp
qed

lemma positive_on_keys:
  assumes "all_positive s" and "set players \<subseteq> fst ` set s"
  shows "positive_on players s"
  unfolding positive_on_def
proof
  fix p assume "p \<in> set players"
  with assms(2) obtain v where v: "map_of s p = Some v"
    by (metis (no_types, lifting) subsetD domD dom_map_of_conv_image_fst)
  then have "(p, v) \<in> set s" by (rule map_of_SomeD)
  with assms(1) have "0 < v" by (auto simp: all_positive_def)
  with v show "\<exists>v. map_of s p = Some v \<and> 0 < v" by blast
qed

lemma abs_diffs_ok:
  assumes "set ks \<subseteq> fst ` set a" and "set ks \<subseteq> fst ` set b"
  shows "\<exists>ds. abs_diffs a b ks = Inr ds \<and> length ds = length ks"
  using assms
proof (induction ks)
  case Nil
  then show ?case by simp
next
  case (Cons k ks)
  then obtain x y where "map_of a k = Some x" "map_of b k = Some y"
    by (metis (no_types, lifting) list.set_intros(1) subsetD domD dom_map_of_conv_image_fst)
  moreover from Cons obtain ds where "abs_diffs a b ks = Inr ds" "length ds = length ks"
    by auto
  ultimately show ?case by (simp add: dict_item_def)
qed

lemma bt_round_normalized:
  assumes "bt_round wins players scores = Inr (s', delta)"
  shows "sum_list (map snd s') = 1"
proof -
  from assms obtain ns where ns: "mm_update wins players scores = Inr ns"
    by (auto simp: bt_round_def split: sum.splits)
  with assms have "0 < sum_list (map snd ns)" and "s' = normalize ns (sum_list (map snd ns))"
    by (auto simp: bt_round_def Let_def split: sum.splits if_splits)
  then show ?thesis by (simp add: sum_list_normalize)
qed

lemma bt_round_ok:
  assumes "registered wins players" and "positive_on players scores" and "players \<noteq> []"
  shows "\<exists>s' delta. bt_round wins players scores = Inr (s', delta)
           \<and> fst ` set s' = set players \<and> all_positive s' \<and> distinct (map fst s')
           \<and> positive_on players s'"
proof -
  from mm_update_ok [OF assms(1,2)] obtain ns where
    ns: "mm_update wins players scores = Inr ns" "fst ` set ns = set players"
      "all_positive ns" "distinct (map fst ns)" by blast
  from ns(2) assms(3) have "ns \<noteq> []" by auto
  with ns(3) have t: "0 < sum_list (map snd ns)" by (rule all_positive_sum)
  let ?s = "normalize ns (sum_list (map snd ns))"
  have k: "map fst ?s = map fst ns" by (rule keys_normalize)
  then have ks: "fst ` set ?s = set players"
    using ns(2) by (metis list.set_map)
  have p: "all_positive ?s" using ns(3) t by (rule all_positive_normalize)
  from assms(2) have "set players \<subseteq> fst ` set scores"
    by (auto simp: positive_on_def dest!: map_of_SomeD bspec intro: rev_image_eqI)
  with abs_diffs_ok [of players ?s scores] ks obtain ds where
    ds: "abs_diffs ?s scores players = Inr ds" "length ds = length players" by auto
  with assms(3) obtain d rest where "ds = d # rest" by (cases ds) auto
  with ds ns t have "bt_round wins players scores = Inr (?s, fold max rest d)"
    by (simp add: bt_round_def py_max_def)
  moreover have "positive_on players ?s" using p ks by (intro positive_on_keys) auto
  ultimately show ?thesis using k ks p ns by auto
qed

subsection \<open>The fitter: the loop\<close>

lemma set_players_of: "set (players_of wins) = fst ` set wins"
  by (simp add: players_of_def)

lemma registered_players_of: "registered wins (players_of wins)"
  unfolding registered_def set_players_of
  by (metis (no_types, lifting) domD dom_map_of_conv_image_fst)

lemma fold_initial:
  "fst ` set (fold (\<lambda>player. AList.update player (1::real)) ps acc) = fst ` set acc \<union> set ps
   \<and> (all_positive acc \<longrightarrow> all_positive (fold (\<lambda>player. AList.update player 1) ps acc))"
proof (induction ps arbitrary: acc)
  case Nil
  then show ?case by simp
next
  case (Cons p ps)
  from Cons [of "AList.update p 1 acc"] show ?case
    by (auto simp: dom_update intro: all_positive_update)
qed

lemma positive_on_initial: "positive_on players (initial_scores players)"
proof (rule positive_on_keys)
  show "all_positive (initial_scores players)"
    using fold_initial [of players "[]"] by (simp add: initial_scores_def all_positive_def)
  show "set players \<subseteq> fst ` set (initial_scores players)"
    using fold_initial [of players "[]"] by (simp add: initial_scores_def)
qed

lemma bt_loop_ok:
  assumes "registered wins players" and "players \<noteq> []" and "positive_on players scores"
  shows "\<exists>r. bt_loop wins tol players n scores = Inr r
           \<and> positive_on players r
           \<and> (0 < n \<longrightarrow> fst ` set r = set players \<and> distinct (map fst r)
                 \<and> all_positive r \<and> sum_list (map snd r) = 1)"
  using assms(3)
proof (induction n arbitrary: scores)
  case 0
  then show ?case by simp
next
  case (Suc n)
  from bt_round_ok [OF assms(1) Suc.prems assms(2)] obtain s' delta where
    r: "bt_round wins players scores = Inr (s', delta)" "fst ` set s' = set players"
      "all_positive s'" "distinct (map fst s')" "positive_on players s'" by blast
  from r(1) have one: "sum_list (map snd s') = 1" by (rule bt_round_normalized)
  show ?case
  proof (cases "delta < tol")
    case True
    with r one show ?thesis by simp
  next
    case False
    from Suc.IH [OF r(5)] obtain res where
      res: "bt_loop wins tol players n s' = Inr res" "positive_on players res"
        "0 < n \<longrightarrow> fst ` set res = set players \<and> distinct (map fst res)
                 \<and> all_positive res \<and> sum_list (map snd res) = 1" by blast
    show ?thesis
    proof (cases n)
      case 0
      with r one False show ?thesis by simp
    next
      case (Suc m)
      with res r(1) False show ?thesis by simp
    qed
  qed
qed

lemma bt_loop_empty:
  "bt_loop [] tol [] n [] = (if n = 0 then Inr [] else Inl RuntimeError_failed_to_normalize)"
  by (cases n) (simp_all add: bt_round_def mm_update_def)

lemma scores_after_shift:
  "scores_after wins tol players s (Suc k) =
     (case bt_round wins players s of
        Inl e \<Rightarrow> None
      | Inr (s', delta) \<Rightarrow>
          if delta < tol then None else scores_after wins tol players s' k)"
proof (induction k)
  case 0
  show ?case by (simp split: sum.splits prod.splits)
next
  case (Suc k)
  have "scores_after wins tol players s (Suc (Suc k)) =
      (case scores_after wins tol players s (Suc k) of
         None \<Rightarrow> None
       | Some s1 \<Rightarrow>
          (case bt_round wins players s1 of
             Inl e \<Rightarrow> None
           | Inr (s', delta) \<Rightarrow> if delta < tol then None else Some s'))"
    by simp
  also have "\<dots> =
     (case bt_round wins players s of
        Inl e \<Rightarrow> None
      | Inr (s', delta) \<Rightarrow>
          if delta < tol then None else scores_after wins tol players s' (Suc k))"
    unfolding Suc.IH by (simp split: sum.splits prod.splits)
  finally show ?case .
qed

lemma bt_loop_Inl_iff:
  "bt_loop wins tol players n s = Inl e \<longleftrightarrow>
     (\<exists>k<n. \<exists>sk. scores_after wins tol players s k = Some sk
                \<and> bt_round wins players sk = Inl e)"
proof (induction n arbitrary: s)
  case 0
  show ?case by simp
next
  case (Suc n)
  show ?case
  proof (cases "bt_round wins players s")
    case (Inl e')
    have "(\<exists>k<Suc n. \<exists>sk. scores_after wins tol players s k = Some sk
              \<and> bt_round wins players sk = Inl e) \<longleftrightarrow> e' = e"
    proof
      assume "\<exists>k<Suc n. \<exists>sk. scores_after wins tol players s k = Some sk
              \<and> bt_round wins players sk = Inl e"
      then obtain k sk where k: "scores_after wins tol players s k = Some sk"
        "bt_round wins players sk = Inl e" by blast
      show "e' = e"
      proof (cases k)
        case 0
        with k Inl show ?thesis by simp
      next
        case (Suc m)
        with k(1) Inl show ?thesis by (simp add: scores_after_shift del: scores_after.simps)
      qed
    next
      assume "e' = e"
      with Inl have "scores_after wins tol players s 0 = Some s \<and> bt_round wins players s = Inl e"
        by simp
      then show "\<exists>k<Suc n. \<exists>sk. scores_after wins tol players s k = Some sk
              \<and> bt_round wins players sk = Inl e" by blast
    qed
    with Inl show ?thesis by simp
  next
    case (Inr p)
    obtain s' delta where p: "p = (s', delta)" by (cases p)
    show ?thesis
    proof (cases "delta < tol")
      case True
      have "\<not> (\<exists>k<Suc n. \<exists>sk. scores_after wins tol players s k = Some sk
              \<and> bt_round wins players sk = Inl e)"
      proof
        assume "\<exists>k<Suc n. \<exists>sk. scores_after wins tol players s k = Some sk
              \<and> bt_round wins players sk = Inl e"
        then obtain k sk where k: "scores_after wins tol players s k = Some sk"
          "bt_round wins players sk = Inl e" by blast
        show False
        proof (cases k)
          case 0
          with k Inr show ?thesis by simp
        next
          case (Suc m)
          with k(1) Inr p True show ?thesis
            by (simp add: scores_after_shift del: scores_after.simps)
        qed
      qed
      with Inr p True show ?thesis by simp
    next
      case False
      have "(\<exists>k<Suc n. \<exists>sk. scores_after wins tol players s k = Some sk
                \<and> bt_round wins players sk = Inl e)
          \<longleftrightarrow> (\<exists>k<n. \<exists>sk. scores_after wins tol players s' k = Some sk
                \<and> bt_round wins players sk = Inl e)" (is "?L \<longleftrightarrow> ?R")
      proof
        assume ?L
        then obtain k sk where k: "k < Suc n" "scores_after wins tol players s k = Some sk"
          "bt_round wins players sk = Inl e" by blast
        show ?R
        proof (cases k)
          case 0
          with k Inr show ?thesis by simp
        next
          case (Suc m)
          with k Inr p False have "m < n" "scores_after wins tol players s' m = Some sk"
            by (simp_all add: scores_after_shift del: scores_after.simps)
          with k(3) show ?thesis by blast
        qed
      next
        assume ?R
        then obtain k sk where k: "k < n" "scores_after wins tol players s' k = Some sk"
          "bt_round wins players sk = Inl e" by blast
        with Inr p False have "Suc k < Suc n"
          "scores_after wins tol players s (Suc k) = Some sk"
          by (simp_all add: scores_after_shift del: scores_after.simps)
        with k(3) show ?L by blast
      qed
      with Inr p False Suc.IH [of s'] show ?thesis by simp
    qed
  qed
qed

lemma bt_loop_cap:
  "scores_after wins tol players s n = Some r \<Longrightarrow> bt_loop wins tol players n s = Inr r"
proof (induction n arbitrary: s)
  case 0
  then show ?case by simp
next
  case (Suc n)
  from Suc.prems obtain s' delta where
    "bt_round wins players s = Inr (s', delta)" "\<not> delta < tol"
    "scores_after wins tol players s' n = Some r"
    by (auto simp: scores_after_shift simp del: scores_after.simps
        split: sum.splits prod.splits if_splits)
  with Suc.IH [of s'] show ?case by simp
qed

lemma denom_loop_error:
  "denom_loop wins scores i js denom = Inl e \<Longrightarrow> e \<noteq> RuntimeError_failed_to_normalize"
  by (induction js arbitrary: denom)
    (auto simp: dict_item_def Let_def split: if_splits option.splits)

lemma update_loop_error:
  "update_loop wins scores players rest acc = Inl e \<Longrightarrow> e \<noteq> RuntimeError_failed_to_normalize"
  by (induction rest arbitrary: acc)
    (auto simp: dict_item_def Let_def dest: denom_loop_error
      split: if_splits option.splits sum.splits)

lemma abs_diffs_error:
  "abs_diffs a b ks = Inl e \<Longrightarrow> e \<noteq> RuntimeError_failed_to_normalize"
  by (induction ks arbitrary: e)
    (auto simp: dict_item_def split: option.splits sum.splits)

lemma bt_round_degenerate_iff:
  "bt_round wins players s = Inl RuntimeError_failed_to_normalize \<longleftrightarrow>
     (\<exists>ns. mm_update wins players s = Inr ns \<and> sum_list (map snd ns) \<le> 0)"
proof (cases "mm_update wins players s")
  case (Inl e)
  then have "e \<noteq> RuntimeError_failed_to_normalize"
    unfolding mm_update_def by (rule update_loop_error)
  with Inl show ?thesis by (auto simp: bt_round_def)
next
  case (Inr ns)
  show ?thesis
  proof (cases "sum_list (map snd ns) \<le> 0")
    case True
    with Inr show ?thesis by (simp add: bt_round_def)
  next
    case False
    with Inr show ?thesis
      by (auto simp: bt_round_def Let_def py_max_def dest: abs_diffs_error
          split: sum.splits list.splits)
  qed
qed

lemma bradley_terry_ok:
  assumes "wins \<noteq> []"
  shows "\<exists>s. bradley_terry wins max_iters tol = Inr s
           \<and> positive_on (players_of wins) s
           \<and> (0 < max_iters \<longrightarrow> fst ` set s = fst ` set wins \<and> distinct (map fst s)
                 \<and> all_positive s \<and> sum_list (map snd s) = 1)"
proof -
  from assms have ne: "players_of wins \<noteq> []"
    using set_players_of [of wins] by (cases wins) auto
  from bt_loop_ok [OF registered_players_of ne positive_on_initial, of tol "nat max_iters"]
  show ?thesis by (simp add: bradley_terry_def Let_def set_players_of)
qed

lemma bt_loop_pos:
  "0 < n \<Longrightarrow> bt_loop wins tol players n scores =
     (case bt_round wins players scores of
        Inl e \<Rightarrow> Inl e
      | Inr (new_scores, delta) \<Rightarrow>
          if delta < tol then Inr new_scores
          else bt_loop wins tol players (n - 1) new_scores)"
  by (cases n) (auto split: sum.splits)

lemmas bt_eval = bt_round_def mm_update_def normalize_def py_max_def dict_item_def
  dict_get_def EPS_def players_of_def initial_scores_def

text \<open>
  Claim C1.  Every round that completes ends with the renormalization, so the vector
  it produces sums to 1; and for every non-empty win matrix and an iteration cap of at
  least one round the fitter returns a strength vector whose keys are exactly the
  entities of the matrix, each with a strictly positive score, the scores summing
  to 1.  (Scores are exact reals here, so the sum is 1 without a tolerance.)
\<close>

theorem fitted_scores_on_simplex:
  "(\<forall>players scores s' delta.
       bt_round wins players scores = Inr (s', delta) \<longrightarrow> sum_list (map snd s') = 1)
 \<and> (wins \<noteq> [] \<and> 0 < max_iters \<longrightarrow>
      (\<exists>s. bradley_terry wins max_iters tol = Inr s
           \<and> fst ` set s = fst ` set wins \<and> distinct (map fst s)
           \<and> (\<forall>p \<in> fst ` set wins. \<exists>v. map_of s p = Some v \<and> 0 < v)
           \<and> sum_list (map snd s) = 1))"
proof (rule conjI)
  show "\<forall>players scores s' delta.
       bt_round wins players scores = Inr (s', delta) \<longrightarrow> sum_list (map snd s') = 1"
    using bt_round_normalized by blast
  show "wins \<noteq> [] \<and> 0 < max_iters \<longrightarrow>
      (\<exists>s. bradley_terry wins max_iters tol = Inr s
           \<and> fst ` set s = fst ` set wins \<and> distinct (map fst s)
           \<and> (\<forall>p \<in> fst ` set wins. \<exists>v. map_of s p = Some v \<and> 0 < v)
           \<and> sum_list (map snd s) = 1)"
  proof
    assume a: "wins \<noteq> [] \<and> 0 < max_iters"
    then have "wins \<noteq> []" and m: "0 < max_iters" by simp_all
    from bradley_terry_ok [OF this(1), of max_iters tol] m
    show "\<exists>s. bradley_terry wins max_iters tol = Inr s
           \<and> fst ` set s = fst ` set wins \<and> distinct (map fst s)
           \<and> (\<forall>p \<in> fst ` set wins. \<exists>v. map_of s p = Some v \<and> 0 < v)
           \<and> sum_list (map snd s) = 1"
      by (auto simp: positive_on_def set_players_of)
  qed
qed

theorem fitted_scores_on_simplex_witness:
  "bradley_terry [(''A'', [(''B'', 2)]), (''B'', [(''A'', 6)])] MAX_ITERS TOL
     = Inr [(''A'', 1/4), (''B'', 3/4)]
   \<and> (\<exists>s. bradley_terry [(''A'', [(''B'', 2)]), (''B'', [(''A'', 6)])] MAX_ITERS TOL = Inr s
           \<and> (\<forall>p \<in> {''A'', ''B''}. \<exists>v. map_of s p = Some v \<and> 0 < v)
           \<and> sum_list (map snd s) = 1)"
proof -
  let ?W = "[(''A'', [(''B'', 2)]), (''B'', [(''A'', 6::nat)])]"
  have r1: "bt_round ?W [''A'', ''B''] [(''A'', 1), (''B'', 1)]
      = Inr ([(''A'', 1/4), (''B'', 3/4)], 3/4)"
    by (simp add: bt_eval)
  have r2: "bt_round ?W [''A'', ''B''] [(''A'', 1/4), (''B'', 3/4)]
      = Inr ([(''A'', 1/4), (''B'', 3/4)], 0)"
    by (simp add: bt_eval)
  have e: "bradley_terry ?W MAX_ITERS TOL = Inr [(''A'', 1/4), (''B'', 3/4)]"
    by (simp add: bradley_terry_def Let_def players_of_def initial_scores_def MAX_ITERS_def
        TOL_def bt_loop_pos r1 r2)
  have h: "?W \<noteq> [] \<and> 0 < MAX_ITERS" by (simp add: MAX_ITERS_def)
  from fitted_scores_on_simplex [of ?W MAX_ITERS TOL]
  have "?W \<noteq> [] \<and> 0 < MAX_ITERS \<longrightarrow>
      (\<exists>s. bradley_terry ?W MAX_ITERS TOL = Inr s
           \<and> fst ` set s = fst ` set ?W \<and> distinct (map fst s)
           \<and> (\<forall>p \<in> fst ` set ?W. \<exists>v. map_of s p = Some v \<and> 0 < v)
           \<and> sum_list (map snd s) = 1)"
    by (rule conjunct2)
  from this h
  have "\<exists>s. bradley_terry ?W MAX_ITERS TOL = Inr s
           \<and> fst ` set s = fst ` set ?W \<and> distinct (map fst s)
           \<and> (\<forall>p \<in> fst ` set ?W. \<exists>v. map_of s p = Some v \<and> 0 < v)
           \<and> sum_list (map snd s) = 1"
    by (rule mp)
  with e show ?thesis by simp
qed

lemma bradley_terry_empty:
  "bradley_terry [] max_iters tol =
     (if nat max_iters = 0 then Inr [] else Inl RuntimeError_failed_to_normalize)"
  by (simp add: bradley_terry_def Let_def players_of_def initial_scores_def bt_loop_empty)

text \<open>
  Claim C2.  The fitter fails with the degenerate-model error exactly when some round
  that the loop reaches computes updated scores whose sum, before the normalization, is
  not positive; it fails with no other error; this happens exactly for the empty win
  matrix with a cap of at least one round.  When the loop runs through all
  \<open>max_iters\<close> rounds without meeting the convergence test, the call does not fail:
  it returns the normalized vector of the last round.
\<close>

theorem degenerate_model_iff:
  "(bradley_terry wins max_iters tol = Inl RuntimeError_failed_to_normalize \<longleftrightarrow>
      (\<exists>k < nat max_iters. \<exists>s ns.
          scores_after wins tol (players_of wins) (initial_scores (players_of wins)) k = Some s
        \<and> mm_update wins (players_of wins) s = Inr ns
        \<and> sum_list (map snd ns) \<le> 0))
 \<and> (\<forall>e. bradley_terry wins max_iters tol = Inl e \<longrightarrow> DegenerateModel e)
 \<and> ((\<exists>e. bradley_terry wins max_iters tol = Inl e) \<longleftrightarrow> wins = [] \<and> 0 < max_iters)
 \<and> (\<forall>s. scores_after wins tol (players_of wins) (initial_scores (players_of wins))
            (nat max_iters) = Some s
        \<longrightarrow> bradley_terry wins max_iters tol = Inr s)"
proof (intro conjI)
  show "bradley_terry wins max_iters tol = Inl RuntimeError_failed_to_normalize \<longleftrightarrow>
      (\<exists>k < nat max_iters. \<exists>s ns.
          scores_after wins tol (players_of wins) (initial_scores (players_of wins)) k = Some s
        \<and> mm_update wins (players_of wins) s = Inr ns
        \<and> sum_list (map snd ns) \<le> 0)"
    by (simp add: bradley_terry_def Let_def bt_loop_Inl_iff bt_round_degenerate_iff)
  have fails: "(\<exists>e. bradley_terry wins max_iters tol = Inl e) \<longleftrightarrow> wins = [] \<and> 0 < max_iters"
    and which: "\<forall>e. bradley_terry wins max_iters tol = Inl e \<longrightarrow> DegenerateModel e"
  proof -
    show "(\<exists>e. bradley_terry wins max_iters tol = Inl e) \<longleftrightarrow> wins = [] \<and> 0 < max_iters"
    proof (cases "wins = []")
      case True
      then show ?thesis by (auto simp: bradley_terry_empty)
    next
      case False
      with bradley_terry_ok [OF False, of max_iters tol] show ?thesis by auto
    qed
    show "\<forall>e. bradley_terry wins max_iters tol = Inl e \<longrightarrow> DegenerateModel e"
    proof (cases "wins = []")
      case True
      then show ?thesis
        by (auto simp: bradley_terry_empty DegenerateModel_def split: if_splits)
    next
      case False
      with bradley_terry_ok [OF False, of max_iters tol] show ?thesis by auto
    qed
  qed
  from which show "\<forall>e. bradley_terry wins max_iters tol = Inl e \<longrightarrow> DegenerateModel e" .
  from fails show "(\<exists>e. bradley_terry wins max_iters tol = Inl e) \<longleftrightarrow> wins = [] \<and> 0 < max_iters" .
  show "\<forall>s. scores_after wins tol (players_of wins) (initial_scores (players_of wins))
            (nat max_iters) = Some s
        \<longrightarrow> bradley_terry wins max_iters tol = Inr s"
    by (simp add: bradley_terry_def Let_def bt_loop_cap)
qed

theorem degenerate_model_iff_witness:
  "bradley_terry [(''A'', [(''B'', 2)]), (''B'', [(''A'', 6)])] 1 TOL
     = Inr [(''A'', 1/4), (''B'', 3/4)]
   \<and> bradley_terry [] MAX_ITERS TOL = Inl RuntimeError_failed_to_normalize"
proof -
  let ?W = "[(''A'', [(''B'', 2)]), (''B'', [(''A'', 6::nat)])]"
  have r1: "bt_round ?W [''A'', ''B''] [(''A'', 1), (''B'', 1)]
      = Inr ([(''A'', 1/4), (''B'', 3/4)], 3/4)"
    by (simp add: bt_eval)
  have cap: "scores_after ?W TOL (players_of ?W) (initial_scores (players_of ?W)) (nat 1)
      = Some [(''A'', 1/4), (''B'', 3/4)]"
    by (simp add: players_of_def initial_scores_def r1 TOL_def)
  from degenerate_model_iff [of ?W 1 TOL]
  have "\<forall>s. scores_after ?W TOL (players_of ?W) (initial_scores (players_of ?W)) (nat 1) = Some s
        \<longrightarrow> bradley_terry ?W 1 TOL = Inr s"
    by (elim conjE)
  with cap have a: "bradley_terry ?W 1 TOL = Inr [(''A'', 1/4), (''B'', 3/4)]" by blast
  have "\<exists>k < nat MAX_ITERS. \<exists>s ns.
          scores_after [] TOL (players_of []) (initial_scores (players_of [])) k = Some s
        \<and> mm_update [] (players_of []) s = Inr ns
        \<and> sum_list (map snd ns) \<le> 0"
    by (rule exI [of _ 0])
      (simp add: MAX_ITERS_def players_of_def initial_scores_def mm_update_def)
  with degenerate_model_iff [of "[]" MAX_ITERS TOL]
  have b: "bradley_terry [] MAX_ITERS TOL = Inl RuntimeError_failed_to_normalize"
    by (elim conjE) (rule iffD2)
  from a b show ?thesis by (rule conjI)
qed








subsection \<open>Re-seeding the fitter\<close>

lemma bradley_terry_refit:
  "bradley_terry wins max_iters tol
     = refit wins (initial_scores (players_of wins)) max_iters tol"
  by (simp add: bradley_terry_def refit_def Let_def)








end
